theory Spec2Isabelle
  imports Main "HOL-Library.Sublist"
begin

section \<open>Line-aware message splitting (src/handlers/tasks.py)\<close>

text \<open>
  The function \<^verbatim>\<open>split_message_by_lines(text, chunk_size)\<close> cuts a long message into
  chunks at line boundaries. A Python \<^verbatim>\<open>str\<close> is modelled as a \<^typ>\<open>string\<close>, one
  \<^typ>\<open>char\<close> per character of the text, so that \<^verbatim>\<open>len\<close> is \<^const>\<open>length\<close>; the
  Python integer \<^verbatim>\<open>chunk_size\<close> is an \<^typ>\<open>int\<close>.
\<close>

subsection \<open>Python's string operations\<close>

definition newline :: char where
  "newline = CHR 0x0A"

text \<open>
  \<^verbatim>\<open>text.split\<close> on the newline character: the fields between the newlines. There
  is always at least one field, and a text that ends in a newline has an empty last
  field. The first case of the \<^verbatim>\<open>case\<close> is never reached (see \<open>split_nl_not_Nil\<close>).
\<close>

fun split_nl :: "string \<Rightarrow> string list" where
  "split_nl [] = [[]]"
| "split_nl (c # cs) =
     (if c = newline then [] # split_nl cs
      else (case split_nl cs of [] \<Rightarrow> [[c]] | l # ls \<Rightarrow> (c # l) # ls))"

text \<open>
  Joining lines with single newlines, the inverse of the splitting. The source does not
  call it; it states where a chunk lies in the text.
\<close>

fun join_nl :: "string list \<Rightarrow> string" where
  "join_nl [] = []"
| "join_nl [l] = l"
| "join_nl (l # ls) = l @ newline # join_nl ls"

subsection \<open>The splitter\<close>

text \<open>
  The state of the \<^verbatim>\<open>for\<close> loop: the list \<^verbatim>\<open>chunks\<close> and the accumulator
  \<^verbatim>\<open>current_chunk\<close>. A Python string is true in a condition iff it is not empty.
\<close>

type_synonym loop_state = "string list \<times> string"

text \<open>One iteration of the loop body (lines 47 to 60 of the source).\<close>

definition loop_body :: "int \<Rightarrow> string \<Rightarrow> loop_state \<Rightarrow> loop_state" where
  "loop_body chunk_size line st =
     (case st of (chunks, current_chunk) \<Rightarrow>
        if int (length current_chunk) + int (length line) + 1 > chunk_size then
          (if current_chunk \<noteq> [] then chunks @ [current_chunk] else chunks, line)
        else if current_chunk = [] then (chunks, line)
        else (chunks, current_chunk @ newline # line))"

text \<open>\<^verbatim>\<open>for line in lines: ...\<close>\<close>

fun for_lines :: "int \<Rightarrow> string list \<Rightarrow> loop_state \<Rightarrow> loop_state" where
  "for_lines chunk_size [] st = st"
| "for_lines chunk_size (line # lines) st =
     for_lines chunk_size lines (loop_body chunk_size line st)"

text \<open>The last flush (lines 62 to 66): the accumulator is emitted unless it is empty.\<close>

definition finish :: "loop_state \<Rightarrow> string list" where
  "finish st =
     (case st of (chunks, current_chunk) \<Rightarrow>
        if current_chunk \<noteq> [] then chunks @ [current_chunk] else chunks)"

text \<open>The general path (lines 42 to 66) on the list of lines.\<close>

definition general_path :: "int \<Rightarrow> string list \<Rightarrow> string list" where
  "general_path chunk_size lines = finish (for_lines chunk_size lines ([], []))"

definition split_message_by_lines :: "string \<Rightarrow> int \<Rightarrow> string list" where
  "split_message_by_lines text chunk_size =
     (if int (length text) \<le> chunk_size then [text]
      else general_path chunk_size (split_nl text))"

text \<open>The lines of all chunks of an output, in order.\<close>

definition chunk_lines :: "string list \<Rightarrow> string list" where
  "chunk_lines chunks = concat (map split_nl chunks)"

subsection \<open>The reference algorithm of the specification\<close>

text \<open>
  The general path as the specification words it: the prospective length counts the
  joining newline only when the current chunk is not empty; the current chunk is flushed
  when it is not empty and the prospective length exceeds the limit; otherwise the line
  is appended, joined by a newline if the chunk was not empty.
\<close>

definition spec_step :: "int \<Rightarrow> string \<Rightarrow> loop_state \<Rightarrow> loop_state" where
  "spec_step limit line st =
     (case st of (output, current) \<Rightarrow>
        let prospective =
              (if current = [] then int (length line)
               else int (length current) + int (length line) + 1)
        in if current \<noteq> [] \<and> prospective > limit then (output @ [current], line)
           else (output, if current = [] then line else current @ newline # line))"

fun spec_loop :: "int \<Rightarrow> string list \<Rightarrow> loop_state \<Rightarrow> loop_state" where
  "spec_loop limit [] st = st"
| "spec_loop limit (line # lines) st = spec_loop limit lines (spec_step limit line st)"

definition spec_split :: "string \<Rightarrow> int \<Rightarrow> string list" where
  "spec_split text limit =
     (if int (length text) \<le> limit then [text]
      else (case spec_loop limit (split_nl text) ([], []) of (output, current) \<Rightarrow>
              if current \<noteq> [] then output @ [current] else output))"

text \<open>
  Maximality of the chunks, in two readings. \<open>maximal_chunks\<close>: a chunk that is not the
  last cannot take the first line of the chunk after it. \<open>next_line_overflows\<close>: a chunk
  that is not the last ends where a prefix \<open>before\<close> of the input lines ends, and the
  input line \<open>l\<close> that follows does not fit into it.
\<close>

definition maximal_chunks :: "int \<Rightarrow> string list \<Rightarrow> bool" where
  "maximal_chunks limit chunks \<longleftrightarrow>
     (\<forall>i. Suc i < length chunks \<longrightarrow>
        limit < int (length (chunks ! i)) + 1 + int (length (hd (split_nl (chunks ! Suc i)))))"

definition overflow_at :: "int \<Rightarrow> string list \<Rightarrow> string list \<Rightarrow> nat \<Rightarrow> bool" where
  "overflow_at limit lines out i \<longleftrightarrow>
     (\<exists>before l after.
        lines = before @ l # after \<and>
        take (Suc i) out = general_path limit before \<and>
        limit < int (length (out ! i)) + 1 + int (length l))"

definition next_line_overflows :: "int \<Rightarrow> string list \<Rightarrow> string list \<Rightarrow> bool" where
  "next_line_overflows limit lines out \<longleftrightarrow>
     (\<forall>i. Suc i < length out \<longrightarrow> overflow_at limit lines out i)"

subsection \<open>Empty lines at the start of a chunk\<close>






subsection \<open>Loop invariants\<close>

text \<open>A chunk respects the limit or is one of the lines \<open>L\<close>.\<close>

definition within :: "int \<Rightarrow> string set \<Rightarrow> string \<Rightarrow> bool" where
  "within cs L c \<longleftrightarrow> int (length c) \<le> cs \<or> c \<in> L"

definition bounded_state :: "int \<Rightarrow> string set \<Rightarrow> loop_state \<Rightarrow> bool" where
  "bounded_state cs L st \<longleftrightarrow>
     (\<forall>c\<in>set (fst st). within cs L c) \<and> (snd st = [] \<or> within cs L (snd st))"

text \<open>
  After the lines \<open>seen\<close>, every flushed chunk lies inside their join and the
  accumulator is its end.
\<close>

definition located :: "string list \<Rightarrow> loop_state \<Rightarrow> bool" where
  "located seen st \<longleftrightarrow>
     (\<forall>c\<in>set (fst st). sublist c (join_nl seen)) \<and> suffix (snd st) (join_nl seen)"

text \<open>\<open>ys\<close> is \<open>ls\<close> with some empty lines left out.\<close>

definition kept :: "string list \<Rightarrow> string list \<Rightarrow> bool" where
  "kept ys ls \<longleftrightarrow>
     subseq ys ls \<and> filter (\<lambda>l. l \<noteq> []) ys = filter (\<lambda>l. l \<noteq> []) ls"

text \<open>
  The flushed chunks are maximal, and the last of them cannot take the first line of the
  accumulator (nor any line at all, when the accumulator is empty).
\<close>

definition greedy :: "int \<Rightarrow> loop_state \<Rightarrow> bool" where
  "greedy limit st \<longleftrightarrow>
     maximal_chunks limit (fst st) \<and>
     (fst st \<noteq> [] \<longrightarrow>
        (if snd st = [] then limit < int (length (last (fst st))) + 1
         else limit < int (length (last (fst st))) + 1
                + int (length (hd (split_nl (snd st))))))"

lemmas eval_defs =
  split_message_by_lines_def general_path_def finish_def loop_body_def newline_def

section \<open>Splitting and joining lines\<close>

lemma split_nl_not_Nil [simp]: "split_nl t \<noteq> []"
  by (induction t) (auto split: list.splits)

lemma split_nl_no_newline: "l \<in> set (split_nl t) \<Longrightarrow> newline \<notin> set l"
proof (induction t arbitrary: l)
  case Nil
  then show ?case by simp
next
  case (Cons c cs)
  obtain x xs where s: "split_nl cs = x # xs" by (cases "split_nl cs") auto
  with Cons show ?case by (auto split: if_splits)
qed

lemma join_nl_Cons: "ls \<noteq> [] \<Longrightarrow> join_nl (l # ls) = l @ newline # join_nl ls"
  by (cases ls) auto

lemma join_split_nl: "join_nl (split_nl t) = t"
proof (induction t)
  case Nil
  then show ?case by simp
next
  case (Cons c cs)
  obtain l ls where s: "split_nl cs = l # ls" by (cases "split_nl cs") auto
  show ?case
  proof (cases "c = newline")
    case True
    then show ?thesis using Cons by (simp add: join_nl_Cons)
  next
    case False
    then show ?thesis using Cons s by (cases ls) auto
  qed
qed

lemma split_nl_append: "split_nl (a @ newline # b) = split_nl a @ split_nl b"
proof (induction a)
  case Nil
  then show ?case by simp
next
  case (Cons c cs)
  then show ?case by (cases "split_nl cs") auto
qed

lemma split_nl_line: "newline \<notin> set l \<Longrightarrow> split_nl l = [l]"
  by (induction l) auto

text \<open>
  Together with \<open>join_split_nl\<close> and \<open>split_nl_no_newline\<close>: \<open>split_nl t\<close> is the one
  non-empty list of newline-free lines whose join is \<open>t\<close>.
\<close>

lemma split_join_nl:
  "ls \<noteq> [] \<Longrightarrow> \<forall>l\<in>set ls. newline \<notin> set l \<Longrightarrow> split_nl (join_nl ls) = ls"
proof (induction ls rule: join_nl.induct)
  case 1
  then show ?case by simp
next
  case (2 l)
  then show ?case by (simp add: split_nl_line)
next
  case (3 l v va)
  then show ?case by (simp add: split_nl_append split_nl_line)
qed

lemma join_nl_snoc:
  "join_nl (ls @ [l]) = (if ls = [] then l else join_nl ls @ newline # l)"
  by (induction ls rule: join_nl.induct) auto

lemma split_nl_length_le: "l \<in> set (split_nl t) \<Longrightarrow> length l \<le> length t"
proof (induction t arbitrary: l)
  case Nil
  then show ?case by simp
next
  case (Cons c cs)
  obtain x xs where s: "split_nl cs = x # xs" by (cases "split_nl cs") auto
  with Cons show ?case by (fastforce split: if_splits)
qed

lemma chunk_lines_append: "chunk_lines (xs @ ys) = chunk_lines xs @ chunk_lines ys"
  by (simp add: chunk_lines_def)

lemma chunk_lines_finish:
  "chunk_lines (finish (chunks, cur)) =
     chunk_lines chunks @ (if cur = [] then [] else split_nl cur)"
  by (simp add: chunk_lines_def finish_def)

lemma for_lines_append:
  "for_lines cs (xs @ ys) st = for_lines cs ys (for_lines cs xs st)"
  by (induction xs arbitrary: st) auto

section \<open>The fast path\<close>

text \<open>
  Claim C3. A text whose length is at most the limit is returned unchanged, as the only
  chunk: \<open>split(text, limit) = [text]\<close>.
\<close>

theorem identity_below_limit:
  "int (length text) \<le> chunk_size \<Longrightarrow> split_message_by_lines text chunk_size = [text]"
  by (simp add: split_message_by_lines_def)

theorem identity_below_limit_witness:
  "int (length ''short'') \<le> 10 \<and> split_message_by_lines ''short'' 10 = [''short'']"
proof
  show h: "int (length ''short'') \<le> 10" by simp
  show "split_message_by_lines ''short'' 10 = [''short'']"
    using h by (rule identity_below_limit)
qed

section \<open>No empty chunk\<close>

lemma loop_body_no_empty:
  "[] \<notin> set (fst st) \<Longrightarrow> [] \<notin> set (fst (loop_body cs line st))"
  by (cases st) (auto simp: loop_body_def)

lemma for_lines_no_empty:
  "[] \<notin> set (fst st) \<Longrightarrow> [] \<notin> set (fst (for_lines cs ls st))"
  by (induction ls arbitrary: st) (auto simp: loop_body_no_empty)

lemma finish_no_empty: "[] \<notin> set (fst st) \<Longrightarrow> [] \<notin> set (finish st)"
  by (cases st) (auto simp: finish_def)

lemma general_path_no_empty: "[] \<notin> set (general_path cs ls)"
  unfolding general_path_def by (rule finish_no_empty, rule for_lines_no_empty) simp

text \<open>
  Claim C5. For a positive limit, no returned chunk is the empty string unless the whole
  input text is empty; and for the empty text the result is the one-element sequence
  holding the empty string.
\<close>

theorem no_empty_chunk:
  "0 < chunk_size \<Longrightarrow>
     (text \<noteq> [] \<longrightarrow> [] \<notin> set (split_message_by_lines text chunk_size)) \<and>
     split_message_by_lines [] chunk_size = [[]]"
  by (simp add: split_message_by_lines_def general_path_no_empty)

theorem no_empty_chunk_witness:
  "(0::int) < 2 \<and> ''ab'' @ [newline] \<noteq> [] \<and>
   [] \<notin> set (split_message_by_lines (''ab'' @ [newline]) 2) \<and>
   split_message_by_lines (''ab'' @ [newline]) 2 = [''ab''] \<and>
   split_message_by_lines [] 2 = [[]]"
proof -
  have h: "(0::int) < 2" by simp
  have n: "''ab'' @ [newline] \<noteq> []" by simp
  have e: "split_message_by_lines (''ab'' @ [newline]) 2 = [''ab'']"
    by (simp add: eval_defs)
  from no_empty_chunk [OF h, of "''ab'' @ [newline]"] h n e show ?thesis by blast
qed

section \<open>The size bound\<close>

lemma loop_body_bounded:
  "bounded_state cs L st \<Longrightarrow> line \<in> L \<Longrightarrow> bounded_state cs L (loop_body cs line st)"
  by (cases st) (auto simp: bounded_state_def within_def loop_body_def)

lemma for_lines_bounded:
  "bounded_state cs L st \<Longrightarrow> set ls \<subseteq> L \<Longrightarrow> bounded_state cs L (for_lines cs ls st)"
  by (induction ls arbitrary: st) (auto simp: loop_body_bounded)

lemma general_path_bounded:
  assumes "c \<in> set (general_path cs ls)"
  shows "int (length c) \<le> cs \<or> c \<in> set ls"
proof -
  have "bounded_state cs (set ls) ([], [])" by (simp add: bounded_state_def)
  then have "bounded_state cs (set ls) (for_lines cs ls ([], []))"
    by (rule for_lines_bounded) simp
  with assms show ?thesis
    by (cases "for_lines cs ls ([], [])")
      (auto simp: general_path_def finish_def bounded_state_def within_def split: if_splits)
qed

text \<open>
  Claim C2. For a positive limit, every returned chunk has length at most the limit,
  except possibly a chunk that is a single line of the input whose own length exceeds
  the limit.
\<close>

theorem chunk_size_bound:
  assumes "0 < chunk_size"
  shows "\<forall>c\<in>set (split_message_by_lines text chunk_size).
           int (length c) \<le> chunk_size \<or>
           (c \<in> set (split_nl text) \<and> chunk_size < int (length c))"
proof
  fix c assume c: "c \<in> set (split_message_by_lines text chunk_size)"
  show "int (length c) \<le> chunk_size \<or>
          (c \<in> set (split_nl text) \<and> chunk_size < int (length c))"
  proof (cases "int (length text) \<le> chunk_size")
    case True
    with c show ?thesis by (simp add: split_message_by_lines_def)
  next
    case False
    with c have "c \<in> set (general_path chunk_size (split_nl text))"
      by (simp add: split_message_by_lines_def)
    from general_path_bounded [OF this] show ?thesis by auto
  qed
qed

theorem chunk_size_bound_witness:
  "(0::int) < 2 \<and>
   split_message_by_lines (''abc'' @ newline # ''d'') 2 = [''abc'', ''d''] \<and>
   ''abc'' \<in> set (split_message_by_lines (''abc'' @ newline # ''d'') 2) \<and>
   (int (length ''abc'') \<le> 2 \<or>
    ''abc'' \<in> set (split_nl (''abc'' @ newline # ''d'')) \<and> 2 < int (length ''abc''))"
proof -
  have h: "(0::int) < 2" by simp
  have e: "split_message_by_lines (''abc'' @ newline # ''d'') 2 = [''abc'', ''d'']"
    by (simp add: eval_defs)
  then have m: "''abc'' \<in> set (split_message_by_lines (''abc'' @ newline # ''d'') 2)"
    by simp
  from h e m chunk_size_bound [OF h, THEN bspec, OF m] show ?thesis by blast
qed

section \<open>Texts of newlines only\<close>

lemma split_nl_only_newlines:
  "\<forall>c\<in>set t. c = newline \<Longrightarrow> \<forall>l\<in>set (split_nl t). l = []"
  by (induction t) auto

lemma for_lines_empty_lines:
  "1 \<le> cs \<Longrightarrow> \<forall>l\<in>set ls. l = [] \<Longrightarrow> for_lines cs ls (chunks, []) = (chunks, [])"
  by (induction ls) (auto simp: loop_body_def)

text \<open>
  Claim C9. For a limit of at least 1 and a text of newline characters only (every line
  is empty) that is longer than the limit, the result is the empty sequence.
\<close>

theorem only_newlines_no_chunks:
  assumes "1 \<le> chunk_size" and "\<forall>c\<in>set text. c = newline"
    and "chunk_size < int (length text)"
  shows "split_message_by_lines text chunk_size = []"
  using assms for_lines_empty_lines [OF assms(1) split_nl_only_newlines [OF assms(2)], of "[]"]
  by (simp add: split_message_by_lines_def general_path_def finish_def)

theorem only_newlines_no_chunks_witness:
  "(1::int) \<le> 1 \<and> set [newline, newline] = {newline} \<and>
   1 < int (length [newline, newline]) \<and> split_message_by_lines [newline, newline] 1 = []"
proof -
  have h1: "(1::int) \<le> 1" by simp
  have s: "set [newline, newline] = {newline}" by simp
  then have h2: "\<forall>c\<in>set [newline, newline]. c = newline" by simp
  have h3: "1 < int (length [newline, newline])" by simp
  from only_newlines_no_chunks [OF h1 h2 h3] h1 s h3 show ?thesis by (intro conjI)
qed

section \<open>Where the chunks lie in the text\<close>

lemma sublist_join_snoc:
  assumes "sublist c (join_nl seen)"
  shows "sublist c (join_nl (seen @ [l]))"
proof -
  have "prefix (join_nl seen) (join_nl (seen @ [l]))" by (simp add: join_nl_snoc)
  then have "sublist (join_nl seen) (join_nl (seen @ [l]))" by (rule prefix_imp_sublist)
  with assms show ?thesis by (rule sublist_order.order_trans)
qed

lemma loop_body_located:
  assumes "located seen st"
  shows "located (seen @ [line]) (loop_body cs line st)"
proof -
  obtain chunks cur where st: "st = (chunks, cur)" by (cases st)
  from assms st have ch: "\<forall>c\<in>set chunks. sublist c (join_nl (seen @ [line]))"
    by (auto simp: located_def intro: sublist_join_snoc)
  from assms st have cur: "suffix cur (join_nl seen)" by (simp add: located_def)
  then have cur': "sublist cur (join_nl (seen @ [line]))"
    by (intro sublist_join_snoc suffix_imp_sublist)
  have line: "suffix line (join_nl (seen @ [line]))"
    by (simp add: join_nl_snoc suffix_def)
  have app: "cur \<noteq> [] \<Longrightarrow> suffix (cur @ newline # line) (join_nl (seen @ [line]))"
    using cur by (auto simp: join_nl_snoc suffix_def)
  show ?thesis
    using ch cur' line app by (auto simp: st located_def loop_body_def)
qed

lemma for_lines_located:
  "located seen st \<Longrightarrow> located (seen @ ls) (for_lines cs ls st)"
proof (induction ls arbitrary: seen st)
  case Nil
  then show ?case by simp
next
  case (Cons l ls)
  from Cons.IH [OF loop_body_located [OF Cons.prems, of l cs]]
  show ?case by simp
qed

lemma general_path_sublist:
  assumes "c \<in> set (general_path cs ls)"
  shows "sublist c (join_nl ls)"
proof -
  have "located [] ([], [])" by (simp add: located_def)
  from for_lines_located [OF this, of ls cs]
  have "located ls (for_lines cs ls ([], []))" by simp
  with assms show ?thesis
    by (cases "for_lines cs ls ([], [])")
      (auto simp: general_path_def finish_def located_def split: if_splits)
qed

lemma split_message_sublist:
  assumes "c \<in> set (split_message_by_lines t cs)"
  shows "sublist c t"
proof (cases "int (length t) \<le> cs")
  case True
  with assms show ?thesis by (simp add: split_message_by_lines_def)
next
  case False
  with assms have "c \<in> set (general_path cs (split_nl t))"
    by (simp add: split_message_by_lines_def)
  then have "sublist c (join_nl (split_nl t))" by (rule general_path_sublist)
  then show ?thesis by (simp add: join_split_nl)
qed

section \<open>The lines of the chunks\<close>

lemma kept_Nil: "kept [] []"
  by (simp add: kept_def)

lemma kept_append: "kept ys ls \<Longrightarrow> kept ys' ls' \<Longrightarrow> kept (ys @ ys') (ls @ ls')"
  by (auto simp: kept_def intro: list_emb_append_mono)

lemma kept_single: "kept [l] [l]"
  by (simp add: kept_def)

text \<open>
  One iteration adds the line to the lines of the output, or adds nothing; the second
  only for an empty line.
\<close>

lemma loop_body_lines:
  assumes "newline \<notin> set line"
  shows "\<exists>ys. chunk_lines (finish (loop_body cs line st)) = chunk_lines (finish st) @ ys
           \<and> kept ys [line]"
proof -
  obtain chunks cur where st: "st = (chunks, cur)" by (cases st)
  have l: "split_nl line = [line]" using assms by (rule split_nl_line)
  let ?r = "chunk_lines (finish (loop_body cs line st))"
  have restart: "chunk_lines (finish (finish st, line)) =
      chunk_lines (finish st) @ (if line = [] then [] else [line])"
    by (simp add: finish_def chunk_lines_append) (simp add: chunk_lines_def l)
  have k: "kept (if line = [] then [] else [line]) [line]"
    by (simp add: kept_def)
  show ?thesis
  proof (cases "int (length cur) + int (length line) + 1 > cs")
    case True
    then have "loop_body cs line st = (finish st, line)"
      by (simp add: st loop_body_def finish_def)
    with restart k show ?thesis by metis
  next
    case False
    show ?thesis
    proof (cases "cur = []")
      case True
      with False have "loop_body cs line st = (finish st, line)"
        by (simp add: st loop_body_def finish_def)
      with restart k show ?thesis by metis
    next
      case cur: False
      with False have "loop_body cs line st = (chunks, cur @ newline # line)"
        by (simp add: st loop_body_def)
      with cur have "?r = chunk_lines (finish st) @ [line]"
        by (simp add: st chunk_lines_finish split_nl_append l)
      with kept_single show ?thesis by metis
    qed
  qed
qed

lemma for_lines_lines:
  "\<forall>l\<in>set ls. newline \<notin> set l \<Longrightarrow>
   \<exists>ys. chunk_lines (finish (for_lines cs ls st)) = chunk_lines (finish st) @ ys \<and> kept ys ls"
proof (induction ls arbitrary: st)
  case Nil
  then show ?case by (simp add: kept_Nil)
next
  case (Cons l ls)
  from Cons.prems have nl: "newline \<notin> set l" and rest: "\<forall>l\<in>set ls. newline \<notin> set l"
    by simp_all
  from loop_body_lines [OF nl, of cs st] obtain ys where
    ys: "chunk_lines (finish (loop_body cs l st)) = chunk_lines (finish st) @ ys" "kept ys [l]"
    by blast
  from Cons.IH [OF rest, of "loop_body cs l st"] obtain zs where
    zs: "chunk_lines (finish (for_lines cs ls (loop_body cs l st))) =
           chunk_lines (finish (loop_body cs l st)) @ zs" "kept zs ls"
    by blast
  from kept_append [OF ys(2) zs(2)] have "kept (ys @ zs) (l # ls)" by simp
  with ys(1) zs(1) show ?case by auto
qed

lemma general_path_kept:
  "\<forall>l\<in>set ls. newline \<notin> set l \<Longrightarrow> kept (chunk_lines (general_path cs ls)) ls"
  using for_lines_lines [of ls cs "([], [])"]
  by (auto simp: general_path_def finish_def chunk_lines_def)

lemma split_message_kept:
  "kept (chunk_lines (split_message_by_lines t cs)) (split_nl t)"
proof (cases "int (length t) \<le> cs")
  case True
  then show ?thesis
    by (simp add: split_message_by_lines_def chunk_lines_def kept_def)
next
  case False
  then show ?thesis
    using general_path_kept [of "split_nl t" cs]
    by (simp add: split_message_by_lines_def split_nl_no_newline)
qed

text \<open>
  Claim C10. For a limit of at least 1, every returned chunk is a contiguous substring
  of the input text, and the lines of the returned chunks, in order, are a subsequence
  of the lines of the input: lines may be left out, but are never reordered, duplicated
  or modified.
\<close>

theorem chunks_are_substrings:
  assumes "1 \<le> chunk_size"
  shows "(\<forall>c\<in>set (split_message_by_lines text chunk_size). sublist c text) \<and>
         subseq (chunk_lines (split_message_by_lines text chunk_size)) (split_nl text)"
proof
  show "\<forall>c\<in>set (split_message_by_lines text chunk_size). sublist c text"
    by (simp add: split_message_sublist)
  have "kept (chunk_lines (split_message_by_lines text chunk_size)) (split_nl text)"
    by (rule split_message_kept)
  then show "subseq (chunk_lines (split_message_by_lines text chunk_size)) (split_nl text)"
    by (simp add: kept_def)
qed

theorem chunks_are_substrings_witness:
  "(1::int) \<le> 2 \<and>
   split_message_by_lines (''ab'' @ newline # newline # ''cd'') 2 = [''ab'', ''cd''] \<and>
   ''cd'' \<in> set (split_message_by_lines (''ab'' @ newline # newline # ''cd'') 2) \<and>
   sublist ''cd'' (''ab'' @ newline # newline # ''cd'') \<and>
   subseq (chunk_lines (split_message_by_lines (''ab'' @ newline # newline # ''cd'') 2))
     (split_nl (''ab'' @ newline # newline # ''cd''))"
proof -
  let ?t = "''ab'' @ newline # newline # ''cd''"
  have h: "(1::int) \<le> 2" by simp
  have e: "split_message_by_lines ?t 2 = [''ab'', ''cd'']"
    by (simp add: eval_defs)
  then have m: "''cd'' \<in> set (split_message_by_lines ?t 2)" by simp
  from chunks_are_substrings [OF h, of ?t]
  have a: "\<forall>c\<in>set (split_message_by_lines ?t 2). sublist c ?t"
    and b: "subseq (chunk_lines (split_message_by_lines ?t 2)) (split_nl ?t)"
    by blast+
  from a m have "sublist ''cd'' ?t" by (rule bspec)
  with h e m b show ?thesis by blast
qed

section \<open>A line longer than the limit\<close>

lemma loop_body_prefix:
  "loop_body cs line (pre @ chunks, cur) =
     (pre @ fst (loop_body cs line (chunks, cur)), snd (loop_body cs line (chunks, cur)))"
  by (simp add: loop_body_def)

text \<open>Chunks already flushed do not influence the rest of the loop.\<close>

lemma for_lines_prefix:
  "for_lines cs ls (pre @ chunks, cur) =
     (pre @ fst (for_lines cs ls (chunks, cur)), snd (for_lines cs ls (chunks, cur)))"
proof (induction ls arbitrary: chunks cur)
  case Nil
  then show ?case by simp
next
  case (Cons l ls)
  obtain chunks' cur' where b: "loop_body cs l (chunks, cur) = (chunks', cur')"
    by (cases "loop_body cs l (chunks, cur)")
  with Cons [of chunks' cur'] show ?case
    by (simp add: loop_body_prefix [of cs l pre chunks cur])
qed

lemma for_lines_after_long:
  assumes "cs < int (length line)" and "line \<noteq> []"
  shows "finish (for_lines cs ls (chunks, line)) = chunks @ [line] @ general_path cs ls"
proof (cases ls)
  case Nil
  with assms show ?thesis by (simp add: finish_def general_path_def)
next
  case (Cons l rest)
  from assms have "loop_body cs l (chunks, line) = (chunks @ [line], l)"
    by (simp add: loop_body_def)
  moreover have "loop_body cs l ([], []) = ([], l)"
    by (simp add: loop_body_def)
  ultimately show ?thesis
    using for_lines_prefix [of cs rest "chunks @ [line]" "[]" l]
    by (simp add: Cons general_path_def finish_def split_beta)
qed

lemma general_path_long_line:
  assumes "cs < int (length line)" and "line \<noteq> []"
  shows "general_path cs (ls1 @ line # ls2) =
           general_path cs ls1 @ [line] @ general_path cs ls2"
proof -
  obtain chunks cur where s: "for_lines cs ls1 ([], []) = (chunks, cur)"
    by (cases "for_lines cs ls1 ([], [])")
  from assms have "loop_body cs line (chunks, cur) = (finish (chunks, cur), line)"
    by (simp add: loop_body_def finish_def)
  then have "for_lines cs (ls1 @ line # ls2) ([], []) =
               for_lines cs ls2 (finish (chunks, cur), line)"
    by (simp add: for_lines_append s)
  then show ?thesis
    using for_lines_after_long [OF assms, of ls2 "finish (chunks, cur)"]
    by (simp add: general_path_def s)
qed

text \<open>
  Claim C4. For a positive limit, a line of the input that is longer than the limit is a
  chunk of the output on its own, and that chunk is longer than the limit: the output
  is the chunks of the lines before it, then the line itself, then the chunks of the
  lines after it, so no other line shares its chunk.
\<close>

theorem oversized_line_alone:
  assumes "0 < chunk_size"
    and "split_nl text = before @ line # after"
    and "chunk_size < int (length line)"
  shows "split_message_by_lines text chunk_size =
           general_path chunk_size before @ [line] @ general_path chunk_size after \<and>
         line \<in> set (split_message_by_lines text chunk_size)"
proof -
  from assms(2) have "line \<in> set (split_nl text)" by simp
  then have "length line \<le> length text" by (rule split_nl_length_le)
  with assms(3) have long: "\<not> int (length text) \<le> chunk_size" by simp
  from assms(1,3) have "line \<noteq> []" by auto
  from general_path_long_line [OF assms(3) this, of before after] long assms(2)
  have "split_message_by_lines text chunk_size =
          general_path chunk_size before @ [line] @ general_path chunk_size after"
    by (simp add: split_message_by_lines_def)
  then show ?thesis by simp
qed

theorem oversized_line_alone_witness:
  "(0::int) < 3 \<and>
   split_nl (''ab'' @ newline # ''longline'' @ newline # ''cd'') =
     [''ab''] @ ''longline'' # [''cd''] \<and>
   3 < int (length ''longline'') \<and>
   split_message_by_lines (''ab'' @ newline # ''longline'' @ newline # ''cd'') 3 =
     [''ab'', ''longline'', ''cd'']"
proof -
  have h1: "(0::int) < 3" by simp
  have h2: "split_nl (''ab'' @ newline # ''longline'' @ newline # ''cd'') =
              [''ab''] @ ''longline'' # [''cd'']"
    by (simp add: newline_def)
  have h3: "3 < int (length ''longline'')" by simp
  have "general_path 3 [''ab''] = [''ab'']" "general_path 3 [''cd''] = [''cd'']"
    by (simp_all add: eval_defs)
  with oversized_line_alone [OF h1 h2 h3] h1 h2 h3 show ?thesis by simp
qed

section \<open>The scenario of three lines\<close>

text \<open>
  Claim C7 gives, for the three lines \<open>line1\<close>, \<open>line2\<close>, \<open>line3\<close> joined by newlines
  and the limit 10, the two chunks \<open>line1\<close>-newline-\<open>line2\<close> and \<open>line3\<close>. Two lines of
  5 characters and their newline are 11 characters, which exceeds 10, so the source
  does not join them.
\<close>

theorem two_lines_per_chunk_counterexample:
  "split_message_by_lines (''line1'' @ newline # ''line2'' @ newline # ''line3'') 10 \<noteq>
     [''line1'' @ newline # ''line2'', ''line3'']"
  by (simp add: eval_defs)

text \<open>
  Claim C7, amended. For that input and the limit 10 the result is the three chunks
  \<open>line1\<close>, \<open>line2\<close>, \<open>line3\<close>; the two chunks of the claim are the result for the
  limit 11.
\<close>

theorem three_lines_scenario:
  "split_message_by_lines (''line1'' @ newline # ''line2'' @ newline # ''line3'') 10 =
     [''line1'', ''line2'', ''line3''] \<and>
   split_message_by_lines (''line1'' @ newline # ''line2'' @ newline # ''line3'') 11 =
     [''line1'' @ newline # ''line2'', ''line3'']"
  by (simp add: eval_defs)

section \<open>The loop and the reference algorithm\<close>

lemma loop_body_spec_step: "loop_body limit line st = spec_step limit line st"
  by (cases st) (simp add: loop_body_def spec_step_def Let_def)

lemma for_lines_spec_loop: "for_lines limit ls st = spec_loop limit ls st"
  by (induction ls arbitrary: st) (simp_all add: loop_body_spec_step)

lemma split_message_spec_split: "split_message_by_lines t limit = spec_split t limit"
  by (simp add: split_message_by_lines_def spec_split_def general_path_def finish_def
      for_lines_spec_loop)

subsection \<open>A chunk cannot take the first line of the next chunk\<close>

lemma maximal_chunks_snoc:
  assumes "maximal_chunks limit chunks"
    and "chunks \<noteq> [] \<Longrightarrow>
           limit < int (length (last chunks)) + 1 + int (length (hd (split_nl c)))"
  shows "maximal_chunks limit (chunks @ [c])"
  unfolding maximal_chunks_def
proof (intro allI impI)
  fix i assume i: "Suc i < length (chunks @ [c])"
  show "limit < int (length ((chunks @ [c]) ! i)) + 1
            + int (length (hd (split_nl ((chunks @ [c]) ! Suc i))))"
  proof (cases "Suc i < length chunks")
    case True
    with assms(1) show ?thesis by (simp add: maximal_chunks_def nth_append)
  next
    case False
    with i have e: "Suc i = length chunks" by simp
    then have ne: "chunks \<noteq> []" by auto
    from e have "chunks ! i = last chunks" by (metis ne last_conv_nth diff_Suc_1)
    with assms(2) [OF ne] e show ?thesis by (simp add: nth_append)
  qed
qed

lemma hd_split_nl_append: "hd (split_nl (a @ newline # b)) = hd (split_nl a)"
  by (simp add: split_nl_append)

lemma loop_body_greedy:
  assumes "greedy limit st" and "newline \<notin> set line"
  shows "greedy limit (loop_body limit line st)"
proof -
  obtain chunks cur where st: "st = (chunks, cur)" by (cases st)
  have l: "hd (split_nl line) = line" using assms(2) by (simp add: split_nl_line)
  from assms(1) st have m: "maximal_chunks limit chunks" by (simp add: greedy_def)
  show ?thesis
  proof (cases "cur = []")
    case True
    with assms(1) st l show ?thesis
      by (auto simp: greedy_def loop_body_def)
  next
    case False
    from assms(1) st False have
      "chunks \<noteq> [] \<Longrightarrow>
         limit < int (length (last chunks)) + 1 + int (length (hd (split_nl cur)))"
      by (simp add: greedy_def)
    from maximal_chunks_snoc [OF m this]
    have ms: "maximal_chunks limit (chunks @ [cur])" by simp
    show ?thesis
      using assms(1) st False l ms
      by (auto simp: greedy_def loop_body_def hd_split_nl_append)
  qed
qed

lemma for_lines_greedy:
  "greedy limit st \<Longrightarrow> \<forall>l\<in>set ls. newline \<notin> set l \<Longrightarrow>
     greedy limit (for_lines limit ls st)"
  by (induction ls arbitrary: st) (simp_all add: loop_body_greedy)

lemma finish_greedy:
  assumes "greedy limit st"
  shows "maximal_chunks limit (finish st)"
proof -
  obtain chunks cur where st: "st = (chunks, cur)" by (cases st)
  show ?thesis
  proof (cases "cur = []")
    case True
    with assms st show ?thesis by (simp add: greedy_def finish_def)
  next
    case False
    with assms st have "maximal_chunks limit (chunks @ [cur])"
      by (intro maximal_chunks_snoc) (simp_all add: greedy_def)
    with False st show ?thesis by (simp add: finish_def)
  qed
qed

lemma split_message_maximal: "maximal_chunks limit (split_message_by_lines t limit)"
proof (cases "int (length t) \<le> limit")
  case True
  then show ?thesis by (simp add: split_message_by_lines_def maximal_chunks_def)
next
  case False
  have "greedy limit ([], [])" by (simp add: greedy_def maximal_chunks_def)
  then have "greedy limit (for_lines limit (split_nl t) ([], []))"
    by (rule for_lines_greedy) (simp add: split_nl_no_newline)
  then show ?thesis
    using False by (simp add: split_message_by_lines_def general_path_def finish_greedy)
qed

subsection \<open>A chunk cannot take the input line that follows it\<close>

lemma overflow_at_later:
  assumes "overflow_at limit ls chunks i" and "i < length chunks"
  shows "overflow_at limit (ls @ [x]) (chunks @ more) i"
proof -
  from assms(1) obtain before l after where
    d: "ls = before @ l # after" "take (Suc i) chunks = general_path limit before"
       "limit < int (length (chunks ! i)) + 1 + int (length l)"
    unfolding overflow_at_def by blast
  from d(1) have "ls @ [x] = before @ l # (after @ [x])" by simp
  moreover from assms(2) d(2) have "take (Suc i) (chunks @ more) = general_path limit before"
    by simp
  moreover from assms(2) d(3)
  have "limit < int (length ((chunks @ more) ! i)) + 1 + int (length l)"
    by (simp add: nth_append)
  ultimately show ?thesis unfolding overflow_at_def by blast
qed

text \<open>Every chunk flushed inside the loop was flushed by a line that did not fit.\<close>

lemma for_lines_overflow:
  "\<forall>i<length (fst (for_lines limit ls ([], []))).
      overflow_at limit ls (fst (for_lines limit ls ([], []))) i"
proof (induction ls rule: rev_induct)
  case Nil
  then show ?case by simp
next
  case (snoc x ls)
  obtain chunks cur where st: "for_lines limit ls ([], []) = (chunks, cur)"
    by (cases "for_lines limit ls ([], [])")
  from snoc st have IH: "\<forall>i<length chunks. overflow_at limit ls chunks i" by simp
  have step: "for_lines limit (ls @ [x]) ([], []) = loop_body limit x (chunks, cur)"
    by (simp add: for_lines_append st)
  show ?case
  proof (cases "int (length cur) + int (length x) + 1 > limit \<and> cur \<noteq> []")
    case True
    then have b: "loop_body limit x (chunks, cur) = (chunks @ [cur], x)"
      by (simp add: loop_body_def)
    have "overflow_at limit (ls @ [x]) (chunks @ [cur]) i" if "i < length (chunks @ [cur])" for i
    proof (cases "i < length chunks")
      case True
      with IH show ?thesis by (simp add: overflow_at_later)
    next
      case False
      with that have i: "i = length chunks" by simp
      have "general_path limit ls = chunks @ [cur]"
        using True by (simp add: general_path_def st finish_def)
      with True i show ?thesis
        unfolding overflow_at_def by (intro exI [of _ ls] exI [of _ x] exI [of _ "[]"]) simp
    qed
    then show ?thesis by (simp add: step b)
  next
    case False
    then have "fst (loop_body limit x (chunks, cur)) = chunks"
      by (auto simp: loop_body_def)
    moreover have "overflow_at limit (ls @ [x]) chunks i" if "i < length chunks" for i
      using overflow_at_later [of limit ls chunks i x "[]"] IH that by simp
    ultimately show ?thesis by (simp add: step)
  qed
qed

lemma general_path_overflow: "next_line_overflows limit ls (general_path limit ls)"
  unfolding next_line_overflows_def
proof (intro allI impI)
  fix i assume i: "Suc i < length (general_path limit ls)"
  obtain chunks cur where st: "for_lines limit ls ([], []) = (chunks, cur)"
    by (cases "for_lines limit ls ([], [])")
  from i have il: "i < length chunks"
    by (simp add: general_path_def st finish_def split: if_splits)
  with for_lines_overflow [of limit ls] st have o: "overflow_at limit ls chunks i" by simp
  show "overflow_at limit ls (general_path limit ls) i"
  proof (cases "cur = []")
    case True
    with o show ?thesis by (simp add: general_path_def st finish_def)
  next
    case False
    then have g: "general_path limit ls = chunks @ [cur]"
      by (simp add: general_path_def st finish_def)
    from o il obtain before l after where
      d: "ls = before @ l # after" "take (Suc i) chunks = general_path limit before"
         "limit < int (length (chunks ! i)) + 1 + int (length l)"
      unfolding overflow_at_def by blast
    from il d(2) have "take (Suc i) (chunks @ [cur]) = general_path limit before" by simp
    moreover from il d(3) have "limit < int (length ((chunks @ [cur]) ! i)) + 1 + int (length l)"
      by (simp add: nth_append)
    ultimately show ?thesis unfolding overflow_at_def g using d(1) by blast
  qed
qed

lemma split_message_overflow:
  "next_line_overflows limit (split_nl t) (split_message_by_lines t limit)"
proof (cases "int (length t) \<le> limit")
  case True
  then show ?thesis by (simp add: split_message_by_lines_def next_line_overflows_def)
next
  case False
  then show ?thesis by (simp add: split_message_by_lines_def general_path_overflow)
qed

text \<open>
  Claim C6. The loop of the source is equal, as a function, to the reference algorithm
  of the specification, in which the prospective length is the current length plus the
  line length plus 1 for the joining newline, without the 1 when the current chunk is
  empty, a flush happens exactly when the current chunk is not empty and appending
  would exceed the limit, and otherwise the line is appended. Consequently every chunk
  but the last is maximal: appending the next line would exceed the limit, whether the
  next line is read as the first line of the next chunk or as the input line that
  follows the chunk.
\<close>

theorem loop_refines_spec:
  "loop_body = spec_step \<and> for_lines = spec_loop \<and> split_message_by_lines = spec_split \<and>
   maximal_chunks limit (split_message_by_lines text limit) \<and>
   next_line_overflows limit (split_nl text) (split_message_by_lines text limit)"
proof (intro conjI)
  show "loop_body = spec_step" by (intro ext) (rule loop_body_spec_step)
  show "for_lines = spec_loop" by (intro ext) (rule for_lines_spec_loop)
  show "split_message_by_lines = spec_split" by (intro ext) (rule split_message_spec_split)
  show "maximal_chunks limit (split_message_by_lines text limit)"
    by (rule split_message_maximal)
  show "next_line_overflows limit (split_nl text) (split_message_by_lines text limit)"
    by (rule split_message_overflow)
qed

theorem loop_refines_spec_witness:
  "split_message_by_lines (''line1'' @ newline # ''line2'' @ newline # ''line3'') 10 =
     [''line1'', ''line2'', ''line3''] \<and>
   Suc 0 < length (split_message_by_lines (''line1'' @ newline # ''line2'' @ newline # ''line3'') 10) \<and>
   10 < int (length (split_message_by_lines
                (''line1'' @ newline # ''line2'' @ newline # ''line3'') 10 ! 0))
        + 1
        + int (length (hd (split_nl (split_message_by_lines
                (''line1'' @ newline # ''line2'' @ newline # ''line3'') 10 ! Suc 0)))) \<and>
   overflow_at 10 (split_nl (''line1'' @ newline # ''line2'' @ newline # ''line3''))
     (split_message_by_lines (''line1'' @ newline # ''line2'' @ newline # ''line3'') 10) 0"
proof -
  let ?t = "''line1'' @ newline # ''line2'' @ newline # ''line3''"
  let ?cs = "split_message_by_lines ?t 10"
  have e: "?cs = [''line1'', ''line2'', ''line3'']" by (simp add: eval_defs)
  then have h: "Suc 0 < length ?cs" by simp
  from loop_refines_spec [of 10 ?t]
  have m: "maximal_chunks 10 ?cs" and n: "next_line_overflows 10 (split_nl ?t) ?cs"
    by blast+
  from m have "Suc 0 < length ?cs \<longrightarrow>
     10 < int (length (?cs ! 0)) + 1 + int (length (hd (split_nl (?cs ! Suc 0))))"
    unfolding maximal_chunks_def by (rule spec)
  with h have a: "10 < int (length (?cs ! 0)) + 1 + int (length (hd (split_nl (?cs ! Suc 0))))"
    by (rule rev_mp)
  from n have "Suc 0 < length ?cs \<longrightarrow> overflow_at 10 (split_nl ?t) ?cs 0"
    unfolding next_line_overflows_def by (rule spec)
  with h have b: "overflow_at 10 (split_nl ?t) ?cs 0" by (rule rev_mp)
  from e h a b show ?thesis by (intro conjI)
qed

section \<open>Which lines the chunks keep\<close>









end
